theory Spec2Isabelle
  imports Main "HOL-Library.AList" "HOL-Library.Sublist"
begin

section \<open>Dataset acquisition (\<open>src/data/download_data.py\<close>) and user lookup (\<open>src/auth/users.py\<close>)\<close>

text \<open>
  \<open>download_data\<close> validates its two arguments, calls the injected download function,
  ensures the destination directory with \<open>os.makedirs(..., exist_ok=True)\<close>, and moves the
  downloaded artifact with \<open>os.rename\<close> to \<open>path.join(raw_data_path, os.path.basename(file_path))\<close>.
  The function itself is embedded line by line. The operating-system calls it makes are
  embedded as functions on an explicit file-system state with POSIX behaviour: one device,
  no symbolic links, no permission bits.
\<close>

subsection \<open>The file system\<close>

text \<open>
  A file system is a tree: a regular file carries its content, a directory its entries.
  A location is the list of entry names from the root.
\<close>

type_synonym path = "string list"

datatype node = File string | Dir "(string \<times> node) list"

datatype kind = KFile string | KDir

datatype errno = ENOENT | ENOTDIR | EEXIST | EISDIR | ENOTEMPTY | EINVAL | EBUSY

record world =
  fs :: node
  cwd :: path
  environ :: "(string \<times> string) list"

fun kind_of :: "node \<Rightarrow> kind" where
  "kind_of (File c) = KFile c"
| "kind_of (Dir es) = KDir"

fun lookup :: "node \<Rightarrow> path \<Rightarrow> node option" where
  "lookup t [] = Some t"
| "lookup t (c # cs) =
     (case t of
        File x \<Rightarrow> None
      | Dir es \<Rightarrow> (case map_of es c of None \<Rightarrow> None | Some ch \<Rightarrow> lookup ch cs))"

definition stat :: "node \<Rightarrow> path \<Rightarrow> kind option" where
  "stat t q = map_option kind_of (lookup t q)"

text \<open>\<open>put q n t\<close> stores node \<open>n\<close> at location \<open>q\<close> when the parent of \<open>q\<close> is a directory.\<close>

fun put :: "path \<Rightarrow> node \<Rightarrow> node \<Rightarrow> node" where
  "put [] n t = n"
| "put (c # cs) n t =
     (case t of
        File x \<Rightarrow> File x
      | Dir es \<Rightarrow>
          (if cs = [] then Dir (AList.update c n es)
           else (case map_of es c of
                   None \<Rightarrow> Dir es
                 | Some ch \<Rightarrow> Dir (AList.update c (put cs n ch) es))))"

text \<open>\<open>del q t\<close> removes the entry at location \<open>q\<close>, with everything beneath it.\<close>

fun del :: "path \<Rightarrow> node \<Rightarrow> node" where
  "del [] t = t"
| "del (c # cs) t =
     (case t of
        File x \<Rightarrow> File x
      | Dir es \<Rightarrow>
          (if cs = [] then Dir (AList.delete c es)
           else (case map_of es c of
                   None \<Rightarrow> Dir es
                 | Some ch \<Rightarrow> Dir (AList.update c (del cs ch) es))))"

subsection \<open>Path strings (\<open>posixpath\<close>)\<close>

text \<open>\<open>os.path.basename(p)\<close>: \<open>i = p.rfind('/') + 1; return p[i:]\<close>.\<close>

definition path_basename :: "string \<Rightarrow> string" where
  "path_basename p = rev (takeWhile (\<lambda>c. c \<noteq> CHR ''/'') (rev p))"

text \<open>
  \<open>os.path.join(a, b)\<close>: \<open>b\<close> alone when it starts with a slash, \<open>a + b\<close> when \<open>a\<close> is
  empty or ends with a slash, \<open>a + '/' + b\<close> otherwise.
\<close>

definition path_join :: "string \<Rightarrow> string \<Rightarrow> string" where
  "path_join a b =
     (if b \<noteq> [] \<and> hd b = CHR ''/'' then b
      else if a = [] \<or> last a = CHR ''/'' then a @ b
      else a @ ''/'' @ b)"

text \<open>The components of a path string, split at every slash.\<close>

fun splitc :: "string \<Rightarrow> string list" where
  "splitc [] = [[]]"
| "splitc (c # cs) =
     (if c = CHR ''/'' then [] # splitc cs
      else (case splitc cs of [] \<Rightarrow> [[c]] | x # xs \<Rightarrow> (c # x) # xs))"

definition rstrip :: "string \<Rightarrow> string" where
  "rstrip p = rev (dropWhile (\<lambda>c. c = CHR ''/'') (rev p))"

subsection \<open>Path resolution\<close>

definition nodir_err :: "node \<Rightarrow> path \<Rightarrow> errno" where
  "nodir_err t q = (if stat t q = None then ENOENT else ENOTDIR)"

text \<open>
  Walking a list of components from a location: every component is looked up in a
  directory; an empty component and \<open>.\<close> stay, \<open>..\<close> goes to the parent (the root is
  its own parent), a name goes to the entry of that name, which need not exist when it
  is the last one.
\<close>

fun walk :: "node \<Rightarrow> path \<Rightarrow> string list \<Rightarrow> errno + path" where
  "walk t cur [] = Inr cur"
| "walk t cur (c # cs) =
     (if stat t cur \<noteq> Some KDir then Inl (nodir_err t cur)
      else if c = [] \<or> c = ''.'' then walk t cur cs
      else if c = ''..'' then walk t (butlast cur) cs
      else walk t (cur @ [c]) cs)"

definition start :: "world \<Rightarrow> string \<Rightarrow> path" where
  "start w p = (if p \<noteq> [] \<and> hd p = CHR ''/'' then [] else cwd w)"

text \<open>\<open>resolve\<close> is the lookup behind \<open>stat(2)\<close>: the location a path string names, which exists.\<close>

definition resolve :: "world \<Rightarrow> string \<Rightarrow> errno + path" where
  "resolve w p =
     (if p = [] then Inl ENOENT
      else (case walk (fs w) (start w p) (splitc p) of
              Inl e \<Rightarrow> Inl e
            | Inr q \<Rightarrow> (if stat (fs w) q = None then Inl ENOENT else Inr q)))"

definition path_exists :: "world \<Rightarrow> string \<Rightarrow> bool" where
  "path_exists w p = (case resolve w p of Inl e \<Rightarrow> False | Inr q \<Rightarrow> True)"

definition path_isdir :: "world \<Rightarrow> string \<Rightarrow> bool" where
  "path_isdir w p = (case resolve w p of Inl e \<Rightarrow> False | Inr q \<Rightarrow> stat (fs w) q = Some KDir)"

text \<open>\<open>read_file w p\<close> is the content of the regular file that \<open>p\<close> names, if it names one.\<close>

definition read_file :: "world \<Rightarrow> string \<Rightarrow> string option" where
  "read_file w p =
     (case resolve w p of
        Inl e \<Rightarrow> None
      | Inr q \<Rightarrow> (case stat (fs w) q of Some (KFile c) \<Rightarrow> Some c | _ \<Rightarrow> None))"


text \<open>
  \<open>locate\<close> is the lookup behind \<open>rename(2)\<close>: the parent directory, the last component and
  whether slashes trail it.
\<close>

datatype last_comp = LastRoot | LastDot | LastDotDot | LastNorm string

definition last_of :: "string \<Rightarrow> last_comp" where
  "last_of c = (if c = ''.'' then LastDot else if c = ''..'' then LastDotDot else LastNorm c)"

definition locate :: "world \<Rightarrow> string \<Rightarrow> errno + (path \<times> last_comp \<times> bool)" where
  "locate w p =
     (if p = [] then Inl ENOENT
      else if rstrip p = [] then Inr ([], LastRoot, False)
      else (case walk (fs w) (start w p) (butlast (splitc (rstrip p))) of
              Inl e \<Rightarrow> Inl e
            | Inr par \<Rightarrow>
                (if stat (fs w) par \<noteq> Some KDir then Inl (nodir_err (fs w) par)
                 else Inr (par, last_of (last (splitc (rstrip p))), rstrip p \<noteq> p))))"

subsection \<open>\<open>os.makedirs(name, exist_ok=True)\<close>\<close>

text \<open>
  Every missing directory along the path is created, left to right. An existing regular
  file in the way stops the call: \<open>FileExistsError\<close> when it is the last component,
  \<open>NotADirectoryError\<close> when more follows. The directories made before the failure stay.
\<close>

fun mkwalk :: "node \<Rightarrow> path \<Rightarrow> string list \<Rightarrow> errno option \<times> node" where
  "mkwalk t cur [] = (None, t)"
| "mkwalk t cur (c # cs) =
     (if stat t cur \<noteq> Some KDir then (Some (nodir_err t cur), t)
      else if c = [] \<or> c = ''.'' then mkwalk t cur cs
      else if c = ''..'' then mkwalk t (butlast cur) cs
      else (case stat t (cur @ [c]) of
              None \<Rightarrow> mkwalk (put (cur @ [c]) (Dir []) t) (cur @ [c]) cs
            | Some KDir \<Rightarrow> mkwalk t (cur @ [c]) cs
            | Some (KFile x) \<Rightarrow> (Some (if list_all (\<lambda>y. y = []) cs then EEXIST else ENOTDIR), t)))"

definition os_makedirs :: "world \<Rightarrow> string \<Rightarrow> errno option \<times> world" where
  "os_makedirs w name =
     (if name = [] then (Some ENOENT, w)
      else (case mkwalk (fs w) (start w name) (splitc name) of
              (r, t) \<Rightarrow> (r, w\<lparr>fs := t\<rparr>)))"

subsection \<open>\<open>os.rename(src, dst)\<close>\<close>

text \<open>
  The node at the source location is taken out and stored at the target location; the
  working directory follows when it lies inside a moved directory.
\<close>

definition move :: "world \<Rightarrow> path \<Rightarrow> path \<Rightarrow> node \<Rightarrow> world" where
  "move w s d n =
     w\<lparr>fs := put d n (del s (fs w)),
       cwd := (if prefix s (cwd w) then d @ drop (length s) (cwd w) else cwd w)\<rparr>"

fun is_Dir :: "node \<Rightarrow> bool" where
  "is_Dir (Dir es) = True"
| "is_Dir (File c) = False"

text \<open>
  The checks of \<open>rename(2)\<close> in the kernel's order: both parents resolve; neither last
  component is \<open>.\<close>, \<open>..\<close> or the root; the source exists; a trailing slash needs a
  directory source; neither location lies inside the other; the same location is a no-op;
  a file does not replace a directory nor a directory a file; a directory replaces only an
  empty directory.
\<close>

definition os_rename :: "world \<Rightarrow> string \<Rightarrow> string \<Rightarrow> errno + world" where
  "os_rename w src dst =
     (case locate w src of
        Inl e \<Rightarrow> Inl e
      | Inr (sp, sl, sslash) \<Rightarrow>
     (case locate w dst of
        Inl e \<Rightarrow> Inl e
      | Inr (dp, dl, dslash) \<Rightarrow>
     (case sl of
        LastNorm a \<Rightarrow>
         (case dl of
            LastNorm b \<Rightarrow>
              (case lookup (fs w) (sp @ [a]) of
                 None \<Rightarrow> Inl ENOENT
               | Some n \<Rightarrow>
                   (if \<not> is_Dir n \<and> (sslash \<or> dslash) then Inl ENOTDIR
                    else if strict_prefix (sp @ [a]) (dp @ [b]) then Inl EINVAL
                    else if strict_prefix (dp @ [b]) (sp @ [a]) then Inl ENOTEMPTY
                    else if sp @ [a] = dp @ [b] then Inr w
                    else (case lookup (fs w) (dp @ [b]) of
                            None \<Rightarrow> Inr (move w (sp @ [a]) (dp @ [b]) n)
                          | Some (File y) \<Rightarrow>
                              (if is_Dir n then Inl ENOTDIR
                               else Inr (move w (sp @ [a]) (dp @ [b]) n))
                          | Some (Dir es) \<Rightarrow>
                              (if \<not> is_Dir n then Inl EISDIR
                               else if es \<noteq> [] then Inl ENOTEMPTY
                               else Inr (move w (sp @ [a]) (dp @ [b]) n)))))
          | _ \<Rightarrow> Inl EBUSY)
      | _ \<Rightarrow> Inl EBUSY)))"

subsection \<open>\<open>download_data\<close>\<close>

text \<open>
  The errors \<open>download_data\<close> can end with: its own \<open>ValueError\<close> with the message, an
  \<open>OSError\<close> of \<open>os.makedirs\<close> or \<open>os.rename\<close> with its errno (Python raises the subclass
  of that errno: \<open>FileNotFoundError\<close> for \<open>ENOENT\<close>, \<open>FileExistsError\<close> for \<open>EEXIST\<close>,
  \<open>NotADirectoryError\<close> for \<open>ENOTDIR\<close>, \<open>IsADirectoryError\<close> for \<open>EISDIR\<close>), or whatever
  the download function raised, as it raised it.
\<close>

datatype 'x error = ValueError string | OSError errno | Raised 'x

text \<open>
  The download function is a callable without arguments. It may change the world (that
  is its job) and either raises or returns a path string. \<open>None\<close> is Python's \<open>None\<close>;
  a function object is always truthy.
\<close>

type_synonym 'x retrieve = "world \<Rightarrow> ('x + string) \<times> world"

text \<open>The calls \<open>download_data\<close> makes, in the order it makes them.\<close>

datatype event =
    Info string
  | Call_download_func
  | Makedirs string
  | Rename string string

definition download_data ::
  "string \<Rightarrow> 'x retrieve option \<Rightarrow> world \<Rightarrow> ('x error + string) \<times> world \<times> event list" where
  "download_data raw_data_path download_func w =
     (if raw_data_path = [] then (Inl (ValueError ''raw_data_path cannot be empty''), w, [])
      else (case download_func of
        None \<Rightarrow> (Inl (ValueError ''download_func cannot be empty''), w, [])
      | Some f \<Rightarrow>
         (case f w of
            (Inl x, w1) \<Rightarrow>
              (Inl (Raised x), w1, [Info ''>>> Downloading dataset ...'', Call_download_func])
          | (Inr file_path, w1) \<Rightarrow>
             (case os_makedirs w1 raw_data_path of
                (Some e, w2) \<Rightarrow>
                  (Inl (OSError e), w2,
                   [Info ''>>> Downloading dataset ...'', Call_download_func,
                    Makedirs raw_data_path])
              | (None, w2) \<Rightarrow>
                 (let new_file_path = path_join raw_data_path (path_basename file_path) in
                  (case os_rename w2 file_path new_file_path of
                     Inl e \<Rightarrow>
                       (Inl (OSError e), w2,
                        [Info ''>>> Downloading dataset ...'', Call_download_func,
                         Makedirs raw_data_path, Rename file_path new_file_path])
                   | Inr w3 \<Rightarrow>
                       (Inr new_file_path, w3,
                        [Info ''>>> Downloading dataset ...'', Call_download_func,
                         Makedirs raw_data_path, Rename file_path new_file_path,
                         Info (''>>> Data saved to: '' @ new_file_path)])))))))"

text \<open>
  \<open>main\<close> reads \<open>RAW_DATA_PATH\<close> from the environment (default \<open>data/raw/\<close>), joins it to
  the project root, creates the directory and calls \<open>download_data\<close>. The project root
  (\<open>dirname(dirname(abspath(__file__)))\<close>) and the Kaggle download are parameters.
\<close>

definition getenv :: "world \<Rightarrow> string \<Rightarrow> string \<Rightarrow> string" where
  "getenv w k dflt = (case map_of (environ w) k of None \<Rightarrow> dflt | Some v \<Rightarrow> v)"

definition main :: "string \<Rightarrow> 'x retrieve \<Rightarrow> world \<Rightarrow> ('x error + unit) \<times> world \<times> event list" where
  "main root_dir download_kaggle_data w =
     (let raw_data_path = path_join root_dir (getenv w ''RAW_DATA_PATH'' ''data/raw/'') in
      (case os_makedirs w raw_data_path of
         (Some e, w1) \<Rightarrow> (Inl (OSError e), w1, [Makedirs raw_data_path])
       | (None, w1) \<Rightarrow>
          (case download_data raw_data_path (Some download_kaggle_data) w1 of
             (Inl e, w2, ev) \<Rightarrow> (Inl e, w2, Makedirs raw_data_path # ev)
           | (Inr r, w2, ev) \<Rightarrow> (Inr (), w2, Makedirs raw_data_path # ev))))"

subsection \<open>\<open>get_user\<close>\<close>

text \<open>
  \<open>fake_users_db\<close> is a dict of dicts. \<open>UserInDB\<close> lives in \<open>schemas.py\<close>, which is not part
  of the sources at hand; its constructor is the parameter \<open>mk\<close>, applied to the keyword
  arguments \<open>**user\<close>.
\<close>

datatype pyval = PStr string | PBool bool

definition fake_users_db :: "(string \<times> (string \<times> pyval) list) list" where
  "fake_users_db =
     [(''alice'',
       [(''username'', PStr ''alice''),
        (''hashed_password'',
         PStr ''$2b$12$KIXQ1j1F8pYQxvFJH3hE5O6ZLZK9Gz7Hh9c6mV1XyN0k7P6f4nJqS''),
        (''disabled'', PBool False)])]"

definition get_user :: "((string \<times> pyval) list \<Rightarrow> 'u) \<Rightarrow> string \<Rightarrow> 'u option" where
  "get_user mk username =
     (case map_of fake_users_db username of
        None \<Rightarrow> None
      | Some user \<Rightarrow> (if user \<noteq> [] then Some (mk user) else None))"

subsection \<open>Notions used in the properties\<close>

text \<open>
  \<open>grows t t'\<close>: every location has in \<open>t'\<close> the kind and content it has in \<open>t\<close>, or is
  missing in \<open>t\<close> and a directory in \<open>t'\<close>. This is all that \<open>os.makedirs\<close> can do.
\<close>

definition grows :: "node \<Rightarrow> node \<Rightarrow> bool" where
  "grows t t' \<longleftrightarrow> (\<forall>q. stat t' q = stat t q \<or> (stat t q = None \<and> stat t' q = Some KDir))"

text \<open>The calls of a run of \<open>download_data\<close> that returns.\<close>

definition ok_events :: "string \<Rightarrow> string \<Rightarrow> event list" where
  "ok_events raw_data_path file_path =
     [Info ''>>> Downloading dataset ...'', Call_download_func, Makedirs raw_data_path,
      Rename file_path (path_join raw_data_path (path_basename file_path)),
      Info (''>>> Data saved to: '' @ path_join raw_data_path (path_basename file_path))]"

text \<open>The directory entry that a path string names for \<open>rename\<close>: parent location plus last name.\<close>

definition entry :: "world \<Rightarrow> string \<Rightarrow> path option" where
  "entry w p =
     (case locate w p of
        Inl e \<Rightarrow> None
      | Inr (par, l, sl) \<Rightarrow> (case l of LastNorm a \<Rightarrow> Some (par @ [a]) | _ \<Rightarrow> None))"

text \<open>\<open>os.path.join(base, c1, ..., cn)\<close> joins from the left.\<close>

definition join_all :: "string \<Rightarrow> string list \<Rightarrow> string" where
  "join_all base cs = foldl path_join base cs"


subsection \<open>A concrete world\<close>

text \<open>
  The scenario of the unit tests: a downloaded \<open>accidents.zip\<close> holding \<open>test data\<close> and a
  \<open>my_data.tar.gz\<close> under \<open>/tmp/src\<close>, no \<open>/tmp/raw_data\<close> yet; in addition a regular file
  \<open>/tmp/blocker\<close> and a directory \<open>/tmp/raw\<close> that already holds an \<open>accidents.zip\<close>.
  \<open>ex_world_dir\<close> is that world after \<open>os.makedirs('/tmp/raw_data')\<close>, \<open>ex_world_moved\<close>
  after the move of \<open>accidents.zip\<close> into it, \<open>ex_world_dirmoved\<close> after the move of the
  directory \<open>/tmp/src\<close> to \<open>/tmp/b/src\<close>. \<open>ex_retrieve p\<close> is a download function that
  returns \<open>p\<close> and touches nothing, \<open>ex_raise x\<close> one that raises \<open>x\<close>.
\<close>

definition ex_world :: world where
  "ex_world =
     \<lparr>fs = Dir [(''tmp'', Dir [(''src'', Dir [(''accidents.zip'', File ''test data''),
                                             (''my_data.tar.gz'', File ''payload'')]),
                               (''blocker'', File ''not a directory''),
                               (''raw'', Dir [(''accidents.zip'', File ''stale'')])])],
      cwd = [''tmp''],
      environ = [(''RAW_DATA_PATH'', ''custom/data/path'')]\<rparr>"

definition ex_world_dir :: world where
  "ex_world_dir =
     \<lparr>fs = Dir [(''tmp'', Dir [(''src'', Dir [(''accidents.zip'', File ''test data''),
                                             (''my_data.tar.gz'', File ''payload'')]),
                               (''blocker'', File ''not a directory''),
                               (''raw'', Dir [(''accidents.zip'', File ''stale'')]),
                               (''raw_data'', Dir [])])],
      cwd = [''tmp''],
      environ = [(''RAW_DATA_PATH'', ''custom/data/path'')]\<rparr>"

definition ex_world_moved :: world where
  "ex_world_moved =
     \<lparr>fs = Dir [(''tmp'', Dir [(''src'', Dir [(''my_data.tar.gz'', File ''payload'')]),
                               (''blocker'', File ''not a directory''),
                               (''raw'', Dir [(''accidents.zip'', File ''stale'')]),
                               (''raw_data'', Dir [(''accidents.zip'', File ''test data'')])])],
      cwd = [''tmp''],
      environ = [(''RAW_DATA_PATH'', ''custom/data/path'')]\<rparr>"

definition ex_world_dirmoved :: world where
  "ex_world_dirmoved =
     \<lparr>fs = Dir [(''tmp'', Dir [(''blocker'', File ''not a directory''),
                               (''raw'', Dir [(''accidents.zip'', File ''stale'')]),
                               (''b'', Dir [(''src'', Dir [(''accidents.zip'', File ''test data''),
                                                          (''my_data.tar.gz'', File ''payload'')])])])],
      cwd = [''tmp''],
      environ = [(''RAW_DATA_PATH'', ''custom/data/path'')]\<rparr>"

definition ex_retrieve :: "string \<Rightarrow> string retrieve" where
  "ex_retrieve p w = (Inr p, w)"


definition ex_mk :: "(string \<times> pyval) list \<Rightarrow> (string \<times> pyval) list" where
  "ex_mk user = user"

section \<open>Properties of the file system\<close>

subsection \<open>Lookup after storing and removing\<close>

lemma lookup_append:
  "lookup t (p @ q) = (case lookup t p of None \<Rightarrow> None | Some n \<Rightarrow> lookup n q)"
  by (induction p arbitrary: t) (auto split: node.splits option.splits)

lemma stat_Nil: "stat t [] = Some (kind_of t)"
  by (simp add: stat_def)

lemma stat_ancestor:
  assumes "stat t (p @ q) = Some k" and "q \<noteq> []"
  shows "stat t p = Some KDir"
proof -
  from assms obtain n where n: "lookup t p = Some n" and l: "lookup n q \<noteq> None"
    by (auto simp: stat_def lookup_append split: option.splits)
  from l assms(2) have "is_Dir n"
    by (cases q; cases n) auto
  with n show ?thesis by (cases n) (auto simp: stat_def)
qed

lemma stat_butlast:
  assumes "stat t q = Some KDir"
  shows "stat t (butlast q) = Some KDir"
proof (cases "q = []")
  case True with assms show ?thesis by simp
next
  case False
  then have "q = butlast q @ [last q]" by simp
  with assms stat_ancestor [of t "butlast q" "[last q]" KDir] show ?thesis by simp
qed

lemma stat_put:
  "p \<noteq> [] \<Longrightarrow> stat t (butlast p) = Some KDir \<Longrightarrow>
   stat (put p n t) q = (if prefix p q then stat n (drop (length p) q) else stat t q)"
proof (induction p arbitrary: t q)
  case Nil
  then show ?case by simp
next
  case (Cons c cs)
  show ?case
  proof (cases t)
    case (File x)
    with Cons.prems show ?thesis
      by (cases cs) (auto simp: stat_def)
  next
    case (Dir es)
    show ?thesis
    proof (cases "cs = []")
      case True
      with Dir show ?thesis
        by (cases q) (auto simp: stat_def update_conv')
    next
      case False
      with Cons.prems Dir obtain ch where ch: "map_of es c = Some ch"
        by (auto simp: stat_def split: option.splits)
      from False Cons.prems Dir ch have "stat ch (butlast cs) = Some KDir"
        by (auto simp: stat_def)
      from Cons.IH [OF False this] have IH: "\<And>q. stat (put cs n ch) q =
        (if prefix cs q then stat n (drop (length cs) q) else stat ch q)" .
      from Dir False ch have pt: "put (c # cs) n t = Dir (AList.update c (put cs n ch) es)"
        by simp
      show ?thesis
      proof (cases q)
        case Nil
        with pt Dir show ?thesis by (simp add: stat_def)
      next
        case (Cons c' qs)
        show ?thesis
        proof (cases "c' = c")
          case True
          have "stat (put (c # cs) n t) q = stat (put cs n ch) qs"
            using pt Cons True by (simp add: stat_def update_conv')
          moreover have "stat t q = stat ch qs"
            using Dir Cons True ch by (simp add: stat_def)
          ultimately show ?thesis using IH [of qs] Cons True by simp
        next
          case False
          with pt Cons Dir show ?thesis by (simp add: stat_def update_conv')
        qed
      qed
    qed
  qed
qed

lemma lookup_put_same:
  "stat t (butlast p) = Some KDir \<Longrightarrow> lookup (put p n t) p = Some n"
proof (induction p arbitrary: t)
  case Nil
  then show ?case by simp
next
  case (Cons c cs)
  then show ?case
    by (cases t; cases "cs = []") (auto simp: stat_def update_conv' split: option.splits)
qed

lemma stat_del:
  "p \<noteq> [] \<Longrightarrow> stat (del p t) q = (if prefix p q then None else stat t q)"
proof (induction p arbitrary: t q)
  case Nil
  then show ?case by simp
next
  case (Cons c cs)
  show ?case
  proof (cases t)
    case (File x)
    then show ?thesis by (cases q) (auto simp: stat_def)
  next
    case (Dir es)
    show ?thesis
    proof (cases "cs = []")
      case True
      with Dir show ?thesis
        by (cases q) (auto simp: stat_def delete_conv')
    next
      case False
      note IH = Cons.IH [OF False]
      show ?thesis
      proof (cases "map_of es c")
        case None
        with Dir False show ?thesis
          by (cases q) (auto simp: stat_def)
      next
        case (Some ch)
        with Dir False have pt: "del (c # cs) t = Dir (AList.update c (del cs ch) es)"
          by simp
        show ?thesis
        proof (cases q)
          case Nil
          with pt Dir show ?thesis by (simp add: stat_def)
        next
          case (Cons c' qs)
          show ?thesis
          proof (cases "c' = c")
            case True
            have "stat (del (c # cs) t) q = stat (del cs ch) qs"
              using pt Cons True by (simp add: stat_def update_conv')
            moreover have "stat t q = stat ch qs"
              using Dir Cons True Some by (simp add: stat_def)
            ultimately show ?thesis using IH [of ch qs] Cons True by simp
          next
            case False
            with pt Cons Dir show ?thesis by (simp add: stat_def update_conv')
          qed
        qed
      qed
    qed
  qed
qed

subsection \<open>Splitting path strings\<close>

lemma splitc_ne [simp]: "splitc p \<noteq> []"
  by (induction p) (auto split: list.splits)

lemma splitc_append_slash: "splitc (a @ CHR ''/'' # b) = splitc a @ splitc b"
  by (induction a) (auto split: list.splits)

lemma splitc_noslash: "CHR ''/'' \<notin> set b \<Longrightarrow> splitc b = [b]"
  by (induction b) auto

lemma splitc_append_noslash:
  "CHR ''/'' \<notin> set b \<Longrightarrow> splitc (a @ b) = butlast (splitc a) @ [last (splitc a) @ b]"
  by (induction a) (auto simp: splitc_noslash split: list.splits)


lemma basename_noslash: "CHR ''/'' \<notin> set (path_basename p)"
  by (auto simp: path_basename_def dest: set_takeWhileD)

lemma basename_snoc:
  "path_basename (p @ [c]) = (if c = CHR ''/'' then [] else path_basename p @ [c])"
  by (simp add: path_basename_def)

lemma last_splitc: "last (splitc p) = path_basename p"
proof (induction p rule: rev_induct)
  case Nil
  then show ?case by (simp add: path_basename_def)
next
  case (snoc c p)
  show ?case
  proof (cases "c = CHR ''/''")
    case True
    have "splitc (p @ [c]) = splitc p @ [[]]"
      using True splitc_append_slash [of p "[]"] by simp
    then show ?thesis using True by (simp add: basename_snoc)
  next
    case False
    then have "splitc (p @ [c]) = butlast (splitc p) @ [last (splitc p) @ [c]]"
      using splitc_append_noslash [of "[c]" p] by simp
    then show ?thesis using False snoc by (simp add: basename_snoc)
  qed
qed

lemma splitc_replicate: "splitc (a @ replicate k CHR ''/'') = splitc a @ replicate k []"
proof (induction k)
  case 0
  then show ?case by simp
next
  case (Suc k)
  have "splitc ((a @ replicate k CHR ''/'') @ CHR ''/'' # []) = splitc (a @ replicate k CHR ''/'') @ [[]]"
    using splitc_append_slash [of "a @ replicate k CHR ''/''" "[]"] by simp
  moreover have "a @ replicate (Suc k) CHR ''/'' = (a @ replicate k CHR ''/'') @ CHR ''/'' # []"
    by (simp add: replicate_append_same)
  moreover have "replicate (Suc k) ([]::string) = replicate k [] @ [[]]"
    by (simp add: replicate_append_same)
  ultimately show ?case using Suc by simp
qed

lemma rstrip_snoc: "rstrip (p @ [c]) = (if c = CHR ''/'' then rstrip p else p @ [c])"
  by (simp add: rstrip_def)

lemma rstrip_Nil [simp]: "rstrip [] = []"
  by (simp add: rstrip_def)

lemma rstrip_decomp: "\<exists>k. p = rstrip p @ replicate k CHR ''/''"
proof (induction p rule: rev_induct)
  case Nil
  then show ?case by simp
next
  case (snoc c p)
  show ?case
  proof (cases "c = CHR ''/''")
    case True
    from snoc obtain k where k: "p = rstrip p @ replicate k CHR ''/''" by blast
    have "p @ [c] = rstrip p @ replicate (Suc k) CHR ''/''"
      using True k replicate_append_same [of k "CHR ''/''"] by (metis append_assoc replicate_Suc append_Cons append_Nil)
    moreover have "rstrip (p @ [c]) = rstrip p"
      using True by (simp add: rstrip_snoc)
    ultimately have "p @ [c] = rstrip (p @ [c]) @ replicate (Suc k) CHR ''/''"
      by simp
    then show ?thesis by blast
  next
    case False
    then have "p @ [c] = rstrip (p @ [c]) @ replicate 0 CHR ''/''"
      by (simp add: rstrip_snoc)
    then show ?thesis by blast
  qed
qed

lemma rstrip_id: "p \<noteq> [] \<Longrightarrow> last p \<noteq> CHR ''/'' \<Longrightarrow> rstrip p = p"
  by (cases p rule: rev_cases) (auto simp: rstrip_snoc)

lemma rstrip_last: "rstrip p \<noteq> [] \<Longrightarrow> last (rstrip p) \<noteq> CHR ''/''"
  by (induction p rule: rev_induct) (auto simp: rstrip_snoc)

subsection \<open>Walking, and creating directories\<close>

lemma walk_append:
  "walk t cur (xs @ ys) = (case walk t cur xs of Inl e \<Rightarrow> Inl e | Inr q \<Rightarrow> walk t q ys)"
  by (induction xs arbitrary: cur) auto

lemma walk_mono:
  assumes "\<And>q. stat t q = Some KDir \<Longrightarrow> stat t' q = Some KDir"
  shows "walk t cur cs = Inr q \<Longrightarrow> walk t' cur cs = Inr q"
  using assms by (induction cs arbitrary: cur) (auto split: if_splits)

lemma walk_start_dir:
  "walk t cur cs = Inr q \<Longrightarrow> stat t q = Some KDir \<Longrightarrow> stat t cur = Some KDir"
  by (cases cs) (auto split: if_splits)

lemma grows_refl: "grows t t"
  by (simp add: grows_def)

lemma grows_trans: "grows t t' \<Longrightarrow> grows t' t'' \<Longrightarrow> grows t t''"
  unfolding grows_def by (metis option.distinct(1))

lemma grows_dir: "grows t t' \<Longrightarrow> stat t q = Some KDir \<Longrightarrow> stat t' q = Some KDir"
  unfolding grows_def by (metis option.distinct(1))

lemma grows_some: "grows t t' \<Longrightarrow> stat t q = Some k \<Longrightarrow> stat t' q = Some k"
  unfolding grows_def by (metis option.distinct(1))

lemma stat_below_missing:
  assumes "stat t p = None" and "prefix p q"
  shows "stat t q = None"
proof -
  from assms(2) obtain r where "q = p @ r" by (auto simp: prefix_def)
  with assms(1) show ?thesis
    by (auto simp: stat_def lookup_append)
qed

lemma stat_empty_dir: "stat (Dir []) q = (if q = [] then Some KDir else None)"
  by (cases q) (auto simp: stat_def)

lemma grows_mkdir:
  assumes "stat t cur = Some KDir" and "stat t (cur @ [c]) = None"
  shows "grows t (put (cur @ [c]) (Dir []) t)"
proof -
  have "stat (put (cur @ [c]) (Dir []) t) q = stat t q \<or>
        (stat t q = None \<and> stat (put (cur @ [c]) (Dir []) t) q = Some KDir)" for q
  proof (cases "prefix (cur @ [c]) q")
    case True
    then have "stat t q = None" using assms(2) stat_below_missing by blast
    moreover have "stat (put (cur @ [c]) (Dir []) t) q =
        (if drop (length (cur @ [c])) q = [] then Some KDir else None)"
      using True assms(1) stat_put [of "cur @ [c]" t "Dir []" q] by (simp add: stat_empty_dir)
    ultimately show ?thesis by auto
  next
    case False
    then show ?thesis using assms(1) stat_put [of "cur @ [c]" t "Dir []" q] by simp
  qed
  then show ?thesis unfolding grows_def by blast
qed

lemma mkwalk_grows: "grows t (snd (mkwalk t cur cs))"
proof (induction cs arbitrary: t cur)
  case Nil
  then show ?case by (simp add: grows_refl)
next
  case (Cons c cs)
  show ?case
  proof (cases "stat t cur = Some KDir \<and> c \<noteq> [] \<and> c \<noteq> ''.'' \<and> c \<noteq> ''..'' \<and> stat t (cur @ [c]) = None")
    case True
    then have "mkwalk t cur (c # cs) = mkwalk (put (cur @ [c]) (Dir []) t) (cur @ [c]) cs"
      by simp
    moreover have "grows t (put (cur @ [c]) (Dir []) t)"
      using True grows_mkdir by blast
    ultimately show ?thesis using Cons [of "put (cur @ [c]) (Dir []) t" "cur @ [c]"] grows_trans
      by metis
  next
    case False
    then show ?thesis using Cons
      by (auto simp: grows_refl split: option.splits kind.splits)
  qed
qed

lemma mkwalk_ok_walk:
  "mkwalk t cur cs = (None, t') \<Longrightarrow> stat t cur = Some KDir \<Longrightarrow>
   \<exists>q. walk t' cur cs = Inr q \<and> stat t' q = Some KDir"
proof (induction cs arbitrary: t cur)
  case Nil
  then show ?case by simp
next
  case (Cons c cs)
  have g: "grows t t'" using mkwalk_grows [of t cur "c # cs"] Cons.prems(1) by simp
  then have cur': "stat t' cur = Some KDir" using Cons.prems(2) grows_dir by blast
  consider (stay) "c = [] \<or> c = ''.''" | (up) "c = ''..''"
    | (name) "c \<noteq> []" "c \<noteq> ''.''" "c \<noteq> ''..''" by blast
  then show ?case
  proof cases
    case stay
    then show ?thesis using Cons cur' by auto
  next
    case up
    then have "mkwalk t (butlast cur) cs = (None, t')" using Cons.prems by simp
    moreover have "stat t (butlast cur) = Some KDir" using Cons.prems(2) stat_butlast by blast
    ultimately have "\<exists>q. walk t' (butlast cur) cs = Inr q \<and> stat t' q = Some KDir"
      using Cons.IH by blast
    then show ?thesis using up cur' by simp
  next
    case name
    show ?thesis
    proof (cases "stat t (cur @ [c])")
      case None
      let ?t1 = "put (cur @ [c]) (Dir []) t"
      have "mkwalk ?t1 (cur @ [c]) cs = (None, t')" using Cons.prems name None by simp
      moreover have "stat ?t1 (cur @ [c]) = Some KDir"
        using Cons.prems(2) stat_put [of "cur @ [c]" t "Dir []" "cur @ [c]"] by (simp add: stat_empty_dir)
      ultimately have "\<exists>q. walk t' (cur @ [c]) cs = Inr q \<and> stat t' q = Some KDir"
        using Cons.IH by blast
      then show ?thesis using name cur' by simp
    next
      case (Some k)
      show ?thesis
      proof (cases k)
        case (KFile x)
        then show ?thesis using Cons.prems name Some by simp
      next
        case KDir
        then have "mkwalk t (cur @ [c]) cs = (None, t')" using Cons.prems name Some by simp
        then have "\<exists>q. walk t' (cur @ [c]) cs = Inr q \<and> stat t' q = Some KDir"
          using Cons.IH Some KDir by blast
        then show ?thesis using name cur' by simp
      qed
    qed
  qed
qed


subsection \<open>Resolving a joined path\<close>

lemma basename_ne_last: "p \<noteq> [] \<Longrightarrow> path_basename p \<noteq> [] \<Longrightarrow> last p \<noteq> CHR ''/''"
  by (cases p rule: rev_cases) (auto simp: basename_snoc)

lemma splitc_decomp: "splitc p = butlast (splitc p) @ [path_basename p]"
  using last_splitc [of p] splitc_ne [of p] append_butlast_last_id [of "splitc p"] by simp

lemma walk_last:
  assumes "walk t cur (xs @ [b]) = Inr s"
  shows "\<exists>par. walk t cur xs = Inr par \<and> stat t par = Some KDir
       \<and> s = (if b = [] \<or> b = ''.'' then par else if b = ''..'' then butlast par else par @ [b])"
proof -
  from assms obtain par where par: "walk t cur xs = Inr par" and l: "walk t par [b] = Inr s"
    by (auto simp: walk_append split: sum.splits)
  from l have "stat t par = Some KDir" by (auto split: if_splits)
  moreover from l have "s = (if b = [] \<or> b = ''.'' then par else if b = ''..'' then butlast par else par @ [b])"
    by (auto split: if_splits)
  ultimately show ?thesis using par by blast
qed

lemma resolve_file:
  assumes "resolve w p = Inr s" and "stat (fs w) s = Some (KFile c)"
  shows "path_basename p \<noteq> [] \<and> path_basename p \<noteq> ''.'' \<and> path_basename p \<noteq> ''..''
       \<and> s = butlast s @ [path_basename p]
       \<and> locate w p = Inr (butlast s, LastNorm (path_basename p), False)"
proof -
  let ?b = "path_basename p"
  from assms(1) have pne: "p \<noteq> []" and w: "walk (fs w) (start w p) (splitc p) = Inr s"
    by (auto simp: resolve_def split: if_splits sum.splits)
  from w have "walk (fs w) (start w p) (butlast (splitc p) @ [?b]) = Inr s"
    using splitc_decomp [of p] by simp
  then obtain par where par: "walk (fs w) (start w p) (butlast (splitc p)) = Inr par"
    and pd: "stat (fs w) par = Some KDir"
    and s: "s = (if ?b = [] \<or> ?b = ''.'' then par else if ?b = ''..'' then butlast par else par @ [?b])"
    using walk_last by blast
  have b1: "\<not> (?b = [] \<or> ?b = ''.'')"
    using s pd assms(2) by auto
  have b2: "?b \<noteq> ''..''"
  proof
    assume "?b = ''..''"
    with s have "s = butlast par" by simp
    with pd stat_butlast [of "fs w" par] assms(2) show False by simp
  qed
  from s b1 b2 have s': "s = par @ [?b]" by simp
  have "rstrip p = p" using pne b1 basename_ne_last rstrip_id by blast
  then have "locate w p = Inr (par, LastNorm ?b, False)"
    using pne par pd b1 b2 last_splitc [of p] by (simp add: locate_def last_of_def)
  with s' b1 b2 show ?thesis by simp
qed

lemma join_cases:
  assumes "dest \<noteq> []" and "CHR ''/'' \<notin> set b"
  shows "path_join dest b = (if last dest = CHR ''/'' then dest @ b else dest @ CHR ''/'' # b)"
  using assms by (cases b) (auto simp: path_join_def)

lemma start_join:
  assumes "dest \<noteq> []" and "CHR ''/'' \<notin> set b"
  shows "start w (path_join dest b) = start w dest"
  using assms by (cases dest) (auto simp: join_cases start_def)

lemma splitc_join:
  assumes "dest \<noteq> []" and "CHR ''/'' \<notin> set b"
  shows "splitc (path_join dest b) =
         (if last dest = CHR ''/'' then butlast (splitc dest) else splitc dest) @ [b]"
proof (cases "last dest = CHR ''/''")
  case True
  then have "last (splitc dest) = []"
    using assms(1) by (cases dest rule: rev_cases) (auto simp: last_splitc basename_snoc)
  then show ?thesis
    using True assms splitc_append_noslash [of b dest] by (simp add: join_cases)
next
  case False
  then show ?thesis
    using assms splitc_append_slash [of dest b] by (simp add: join_cases splitc_noslash)
qed

lemma join_last:
  assumes "dest \<noteq> []" and "CHR ''/'' \<notin> set b" and "b \<noteq> []"
  shows "path_join dest b \<noteq> [] \<and> last (path_join dest b) \<noteq> CHR ''/''"
  using assms by (cases b rule: rev_cases) (auto simp: join_cases)

lemma walk_parent_join:
  assumes "walk t cur (splitc dest) = Inr dd" and "stat t dd = Some KDir" and "dest \<noteq> []"
  shows "walk t cur (if last dest = CHR ''/'' then butlast (splitc dest) else splitc dest) = Inr dd"
proof (cases "last dest = CHR ''/''")
  case True
  then have l: "last (splitc dest) = []"
    using assms(3) by (cases dest rule: rev_cases) (auto simp: last_splitc basename_snoc)
  have "walk t cur (butlast (splitc dest) @ [[]]) = Inr dd"
    using assms(1) l append_butlast_last_id [of "splitc dest"] by simp
  from walk_last [OF this] show ?thesis using True by auto
next
  case False
  then show ?thesis using assms(1) by simp
qed

lemma locate_join:
  assumes "walk (fs w) (start w dest) (splitc dest) = Inr dd" and "stat (fs w) dd = Some KDir"
    and "dest \<noteq> []" and "CHR ''/'' \<notin> set b" and "b \<noteq> []"
  shows "locate w (path_join dest b) = Inr (dd, last_of b, False)"
proof -
  let ?j = "path_join dest b"
  have r: "rstrip ?j = ?j" and jne: "?j \<noteq> []"
    using join_last [OF assms(3,4,5)] rstrip_id by auto
  have sp: "splitc ?j = (if last dest = CHR ''/'' then butlast (splitc dest) else splitc dest) @ [b]"
    using splitc_join [OF assms(3,4)] .
  have "walk (fs w) (start w ?j) (butlast (splitc ?j)) = Inr dd"
    using walk_parent_join [OF assms(1,2,3)] sp start_join [OF assms(3,4)] by simp
  moreover have "last (splitc ?j) = b" using sp by simp
  ultimately show ?thesis using r jne assms(2) by (simp add: locate_def)
qed

lemma resolve_join:
  assumes "walk (fs w) (start w dest) (splitc dest) = Inr dd" and "stat (fs w) dd = Some KDir"
    and "dest \<noteq> []" and "CHR ''/'' \<notin> set b" and "b \<noteq> []" and "b \<noteq> ''.''" and "b \<noteq> ''..''"
  shows "resolve w (path_join dest b) =
         (if stat (fs w) (dd @ [b]) = None then Inl ENOENT else Inr (dd @ [b]))"
proof -
  let ?j = "path_join dest b"
  have jne: "?j \<noteq> []" using join_last [OF assms(3,4,5)] by simp
  have sp: "splitc ?j = (if last dest = CHR ''/'' then butlast (splitc dest) else splitc dest) @ [b]"
    using splitc_join [OF assms(3,4)] .
  have "walk (fs w) (start w ?j) (splitc ?j) = walk (fs w) dd [b]"
    using walk_parent_join [OF assms(1,2,3)] sp start_join [OF assms(3,4)]
    by (simp add: walk_append)
  also have "\<dots> = Inr (dd @ [b])" using assms(2,5,6,7) by simp
  finally show ?thesis using jne by (simp add: resolve_def)
qed

lemma makedirs_ok:
  assumes "os_makedirs w dest = (None, w2)"
  shows "dest \<noteq> [] \<and> cwd w2 = cwd w \<and> environ w2 = environ w \<and> grows (fs w) (fs w2)
       \<and> (\<exists>dd. walk (fs w2) (start w2 dest) (splitc dest) = Inr dd \<and> stat (fs w2) dd = Some KDir)"
proof -
  from assms have ne: "dest \<noteq> []" by (auto simp: os_makedirs_def split: if_splits)
  obtain t where m: "mkwalk (fs w) (start w dest) (splitc dest) = (None, t)" and w2: "w2 = w\<lparr>fs := t\<rparr>"
    using assms ne by (auto simp: os_makedirs_def split: prod.splits)
  have g: "grows (fs w) t" using mkwalk_grows [of "fs w" "start w dest" "splitc dest"] m by simp
  obtain c cs where cs: "splitc dest = c # cs" using splitc_ne [of dest] by (cases "splitc dest") auto
  have "stat (fs w) (start w dest) = Some KDir"
  proof (rule ccontr)
    assume "stat (fs w) (start w dest) \<noteq> Some KDir"
    with m cs show False by simp
  qed
  from mkwalk_ok_walk [OF m this]
  obtain dd where "walk t (start w dest) (splitc dest) = Inr dd" and "stat t dd = Some KDir"
    by blast
  moreover have "start w2 dest = start w dest" using w2 by (simp add: start_def)
  ultimately show ?thesis using w2 g ne by auto
qed

lemma makedirs_result:
  "\<exists>t. os_makedirs w dest = (r, w2) \<longrightarrow> w2 = w\<lparr>fs := t\<rparr> \<and> grows (fs w) t"
proof (cases "dest = []")
  case True
  then show ?thesis by (auto simp: os_makedirs_def grows_refl intro: exI [of _ "fs w"])
next
  case False
  have "grows (fs w) (snd (mkwalk (fs w) (start w dest) (splitc dest)))" by (rule mkwalk_grows)
  then show ?thesis using False
    by (auto simp: os_makedirs_def split: prod.splits)
qed

subsection \<open>Moving a regular file\<close>

lemma stat_file_lookup: "stat t q = Some (KFile c) \<Longrightarrow> lookup t q = Some (File c)"
proof -
  assume a: "stat t q = Some (KFile c)"
  then obtain n where n: "lookup t q = Some n" by (auto simp: stat_def)
  with a show ?thesis by (cases n) (auto simp: stat_def)
qed

lemma stat_lookup_cases:
  "stat t q \<noteq> Some KDir \<Longrightarrow> lookup t q = None \<or> (\<exists>y. lookup t q = Some (File y))"
proof (cases "lookup t q")
  case None
  then show ?thesis by simp
next
  case (Some n)
  assume "stat t q \<noteq> Some KDir"
  with Some show ?thesis by (cases n) (auto simp: stat_def)
qed

lemma file_not_above_dir:
  assumes "stat t s = Some (KFile c)" and "stat t dd = Some KDir"
  shows "\<not> prefix s dd"
proof
  assume "prefix s dd"
  then obtain r where r: "dd = s @ r" by (auto simp: prefix_def)
  show False
  proof (cases "r = []")
    case True
    with r assms show False by simp
  next
    case False
    with r assms(2) stat_ancestor [of t s r KDir] assms(1) show False by simp
  qed
qed

lemma nodir_not_above:
  assumes "stat t d \<noteq> Some KDir" and "stat t s = Some k"
  shows "\<not> strict_prefix d s"
proof
  assume "strict_prefix d s"
  then obtain r where r: "s = d @ r" and "r \<noteq> []" by (auto simp: strict_prefix_def prefix_def)
  with assms(2) stat_ancestor [of t d r k] assms(1) show False by simp
qed

lemma rename_file:
  assumes "locate w src = Inr (sp, LastNorm a, False)"
    and "stat (fs w) (sp @ [a]) = Some (KFile c)"
    and "locate w dst = Inr (dd, LastNorm b, False)"
    and "stat (fs w) dd = Some KDir"
    and "stat (fs w) (dd @ [b]) \<noteq> Some KDir"
  shows "os_rename w src dst =
         Inr (if sp @ [a] = dd @ [b] then w else move w (sp @ [a]) (dd @ [b]) (File c))"
proof -
  have l: "lookup (fs w) (sp @ [a]) = Some (File c)" using assms(2) stat_file_lookup by blast
  have "\<not> prefix (sp @ [a]) dd" using assms(2,4) file_not_above_dir by blast
  then have n1: "\<not> strict_prefix (sp @ [a]) (dd @ [b])" by (auto simp: strict_prefix_def)
  have n2: "\<not> strict_prefix (dd @ [b]) (sp @ [a])" using assms(2,5) nodir_not_above by blast
  from stat_lookup_cases [OF assms(5)] show ?thesis
    unfolding os_rename_def using assms(1,3) l n1 n2 by auto
qed

lemma move_file_stat:
  assumes "stat t s = Some (KFile c)" and "stat t dd = Some KDir"
    and "stat t (dd @ [b]) \<noteq> Some KDir" and "s \<noteq> dd @ [b]"
  shows "stat (put (dd @ [b]) (File c) (del s t)) q =
         (if q = dd @ [b] then Some (KFile c) else if q = s then None else stat t q)"
proof -
  let ?d = "dd @ [b]"
  have sne: "s \<noteq> []"
  proof
    assume "s = []"
    then have "prefix s dd" by simp
    with assms(1,2) file_not_above_dir show False by blast
  qed
  have nsd: "\<not> prefix s dd" using assms(1,2) file_not_above_dir by blast
  have "stat (del s t) dd = Some KDir" using sne nsd assms(2) by (simp add: stat_del)
  then have p: "stat (put ?d (File c) (del s t)) q =
      (if prefix ?d q then stat (File c) (drop (length ?d) q) else stat (del s t) q)"
    using stat_put [of ?d "del s t" "File c" q] by simp
  show ?thesis
  proof (cases "prefix ?d q")
    case True
    show ?thesis
    proof (cases "q = ?d")
      case True
      with p show ?thesis by (simp add: stat_def)
    next
      case False
      with True obtain r where r: "q = ?d @ r" "r \<noteq> []" by (auto simp: prefix_def)
      then have "stat (File c) (drop (length ?d) q) = None"
        by (cases r) (auto simp: stat_def)
      moreover have "stat t q = None"
      proof (cases "stat t q")
        case (Some k)
        with r stat_ancestor [of t ?d r k] assms(3) show ?thesis by simp
      qed simp
      moreover have "q \<noteq> s"
      proof
        assume "q = s"
        with True False have "strict_prefix ?d s" by (simp add: strict_prefix_def)
        with assms(1,3) nodir_not_above show False by blast
      qed
      ultimately show ?thesis using p True False by simp
    qed
  next
    case False
    then have qd: "q \<noteq> ?d" by auto
    show ?thesis
    proof (cases "prefix s q")
      case True
      have "stat t q = None" if "q \<noteq> s"
      proof (cases "stat t q")
        case (Some k)
        from True that obtain r where "q = s @ r" "r \<noteq> []" by (auto simp: prefix_def)
        with Some stat_ancestor [of t s r k] assms(1) show ?thesis by simp
      qed simp
      then show ?thesis using p False True qd sne by (auto simp: stat_del)
    next
      case False
      then have "q \<noteq> s" by auto
      then show ?thesis using p \<open>\<not> prefix ?d q\<close> False qd sne by (simp add: stat_del)
    qed
  qed
qed

lemma resolve_grows:
  assumes "resolve w p = Inr s" and "grows (fs w) t"
  shows "resolve (w\<lparr>fs := t\<rparr>) p = Inr s"
proof -
  from assms(1) have ne: "p \<noteq> []" and wk: "walk (fs w) (start w p) (splitc p) = Inr s"
    and ex: "stat (fs w) s \<noteq> None"
    by (auto simp: resolve_def split: if_splits sum.splits)
  have "walk t (start w p) (splitc p) = Inr s"
    using walk_mono [OF _ wk] assms(2) grows_dir by blast
  moreover from ex obtain k where "stat (fs w) s = Some k" by auto
  then have "stat t s \<noteq> None" using assms(2) grows_some by fastforce
  moreover have "start (w\<lparr>fs := t\<rparr>) p = start w p" by (simp add: start_def)
  ultimately show ?thesis using ne by (simp add: resolve_def)
qed

lemma read_file_grows:
  assumes "read_file w p = Some c" and "grows (fs w) t"
  shows "read_file (w\<lparr>fs := t\<rparr>) p = Some c"
proof -
  from assms(1) obtain s where s: "resolve w p = Inr s" and k: "stat (fs w) s = Some (KFile c)"
    by (auto simp: read_file_def split: sum.splits option.splits kind.splits)
  from resolve_grows [OF s assms(2)] grows_some [OF assms(2) k] show ?thesis
    by (simp add: read_file_def)
qed

lemma resolve_start_dir:
  assumes "resolve w p = Inr s"
  shows "stat (fs w) (start w p) = Some KDir"
proof -
  from assms have wk: "walk (fs w) (start w p) (splitc p) = Inr s"
    by (auto simp: resolve_def split: if_splits sum.splits)
  obtain c cs where "splitc p = c # cs" using splitc_ne [of p] by (cases "splitc p") auto
  with wk show ?thesis by (auto split: if_splits)
qed

lemma start_move_file:
  assumes "stat (fs w) s = Some (KFile c)" and "stat (fs w) (start w x) = Some KDir"
  shows "start (move w s d n) x = start w x"
proof (cases "x \<noteq> [] \<and> hd x = CHR ''/''")
  case True
  then show ?thesis by (simp add: start_def move_def)
next
  case False
  then have "start w x = cwd w" by (auto simp: start_def)
  with assms file_not_above_dir have "\<not> prefix s (cwd w)" by metis
  then show ?thesis using False by (auto simp: start_def move_def)
qed

lemma resolve_dir:
  assumes "walk (fs w) (start w dest) (splitc dest) = Inr dd" and "stat (fs w) dd = Some KDir"
    and "dest \<noteq> []"
  shows "path_isdir w dest"
  using assms by (simp add: path_isdir_def resolve_def)

lemma rename_file_world:
  assumes src: "resolve w p = Inr s" "stat (fs w) s = Some (KFile c)"
    and dst: "walk (fs w) (start w dest) (splitc dest) = Inr dd" "stat (fs w) dd = Some KDir"
             "dest \<noteq> []"
    and tgt: "stat (fs w) (dd @ [path_basename p]) \<noteq> Some KDir"
  shows "\<exists>w3. os_rename w p (path_join dest (path_basename p)) = Inr w3
       \<and> environ w3 = environ w
       \<and> (\<forall>q. stat (fs w3) q =
               (if q = dd @ [path_basename p] then Some (KFile c)
                else if q = s then None else stat (fs w) q))
       \<and> resolve w3 (path_join dest (path_basename p)) = Inr (dd @ [path_basename p])
       \<and> read_file w3 (path_join dest (path_basename p)) = Some c
       \<and> path_isdir w3 dest
       \<and> (s \<noteq> dd @ [path_basename p] \<longrightarrow> \<not> path_exists w3 p)
       \<and> (s = dd @ [path_basename p] \<longrightarrow> w3 = w)"
proof -
  let ?b = "path_basename p"
  let ?r = "path_join dest ?b"
  let ?d = "dd @ [?b]"
  from resolve_file [OF src] have b: "?b \<noteq> []" "?b \<noteq> ''.''" "?b \<noteq> ''..''"
    and s: "s = butlast s @ [?b]"
    and ls: "locate w p = Inr (butlast s, LastNorm ?b, False)" by auto
  have ns: "CHR ''/'' \<notin> set ?b" by (rule basename_noslash)
  have ld: "locate w ?r = Inr (dd, LastNorm ?b, False)"
    using locate_join [OF dst(1,2,3) ns b(1)] b by (simp add: last_of_def)
  have sf: "stat (fs w) (butlast s @ [?b]) = Some (KFile c)" using s src(2) by simp
  have rn: "os_rename w p ?r = Inr (if s = ?d then w else move w s ?d (File c))"
    using rename_file [OF ls sf ld dst(2) tgt] s by simp
  show ?thesis
  proof (cases "s = ?d")
    case True
    have "resolve w ?r = Inr ?d"
      using resolve_join [OF dst(1,2,3) ns b] True src(2) by simp
    moreover then have "read_file w ?r = Some c" using True src(2) by (simp add: read_file_def)
    moreover have "path_isdir w dest" using resolve_dir [OF dst] .
    ultimately show ?thesis using rn True src(2) by auto
  next
    case False
    let ?w3 = "move w s ?d (File c)"
    have st: "stat (fs ?w3) q = (if q = ?d then Some (KFile c) else if q = s then None else stat (fs w) q)" for q
      using move_file_stat [OF src(2) dst(2) tgt False] by (simp add: move_def)
    have dirs: "stat (fs w) q = Some KDir \<Longrightarrow> stat (fs ?w3) q = Some KDir" for q
      using st [of q] tgt src(2) by auto
    have dirs': "stat (fs ?w3) q = Some KDir \<Longrightarrow> stat (fs w) q = Some KDir" for q
      using st [of q] by (auto split: if_splits)
    have sd: "stat (fs w) (start w dest) = Some KDir" using walk_start_dir [OF dst(1,2)] .
    have std: "start ?w3 dest = start w dest" using start_move_file [OF src(2) sd] .
    have wk3: "walk (fs ?w3) (start ?w3 dest) (splitc dest) = Inr dd"
      using walk_mono [OF dirs dst(1)] std by simp
    have dd3: "stat (fs ?w3) dd = Some KDir" using dirs dst(2) by blast
    have r3: "resolve ?w3 ?r = Inr ?d"
      using resolve_join [OF wk3 dd3 dst(3) ns b] st [of ?d] by simp
    then have rf3: "read_file ?w3 ?r = Some c" using st [of ?d] by (simp add: read_file_def)
    have id3: "path_isdir ?w3 dest" using resolve_dir [OF wk3 dd3 dst(3)] .
    have gone: "\<not> path_exists ?w3 p"
    proof
      assume "path_exists ?w3 p"
      then obtain q where q: "resolve ?w3 p = Inr q"
        by (auto simp: path_exists_def split: sum.splits)
      then have wq: "walk (fs ?w3) (start ?w3 p) (splitc p) = Inr q" and ex: "stat (fs ?w3) q \<noteq> None"
        by (auto simp: resolve_def split: if_splits sum.splits)
      have "start ?w3 p = start w p"
        using start_move_file [OF src(2) resolve_start_dir [OF src(1)]] .
      with walk_mono [OF dirs' wq] have "walk (fs w) (start w p) (splitc p) = Inr q" by simp
      moreover from src(1) have "walk (fs w) (start w p) (splitc p) = Inr s"
        by (auto simp: resolve_def split: if_splits sum.splits)
      ultimately have "q = s" by simp
      with ex st [of s] False show False by simp
    qed
    have "environ ?w3 = environ w" by (simp add: move_def)
    with rn False st r3 rf3 id3 gone show ?thesis by auto
  qed
qed




section \<open>Properties of \<open>download_data\<close> and \<open>get_user\<close>\<close>

subsection \<open>Validation, the single call, user lookup\<close>

text \<open>
  C5. Argument validation comes first. With an empty \<open>raw_data_path\<close> the call ends with
  \<open>ValueError\<close>, whatever the download function is, and with \<open>download_func = None\<close> it ends
  with \<open>ValueError\<close>, whatever the path is; in both cases the world is untouched and no call
  was made: the download function was not invoked and the file system was not changed.
\<close>

theorem download_data_invalid_argument:
  "download_data [] download_func w =
     (Inl (ValueError ''raw_data_path cannot be empty''), w, [])
   \<and> download_data raw_data_path None w =
     (Inl (ValueError (if raw_data_path = [] then ''raw_data_path cannot be empty''
                       else ''download_func cannot be empty'')), w, [])"
  by (simp add: download_data_def)

theorem download_data_invalid_argument_witness:
  "download_data [] (Some (ex_retrieve ''/tmp/src/accidents.zip'')) ex_world =
     (Inl (ValueError ''raw_data_path cannot be empty''), ex_world, [])
   \<and> download_data ''/tmp/raw'' (None :: string retrieve option) ex_world =
     (Inl (ValueError ''download_func cannot be empty''), ex_world, [])"
  using download_data_invalid_argument
    [of "Some (ex_retrieve ''/tmp/src/accidents.zip'')" ex_world "''/tmp/raw''"]
  by simp



text \<open>
  C10. \<open>get_user\<close> is a total lookup: for a user name that is not a key of
  \<open>fake_users_db\<close> it returns \<open>None\<close>, and it returns a \<open>UserInDB\<close> built from the stored
  record exactly when the name is a key; the only key is \<open>alice\<close>.
\<close>

theorem get_user_lookup:
  "(username \<notin> fst ` set fake_users_db \<longrightarrow> get_user mk username = None)
   \<and> (get_user mk username \<noteq> None \<longleftrightarrow> username \<in> fst ` set fake_users_db)
   \<and> fst ` set fake_users_db = {''alice''}
   \<and> get_user mk ''alice'' =
       Some (mk [(''username'', PStr ''alice''),
                 (''hashed_password'',
                  PStr ''$2b$12$KIXQ1j1F8pYQxvFJH3hE5O6ZLZK9Gz7Hh9c6mV1XyN0k7P6f4nJqS''),
                 (''disabled'', PBool False)])"
  by (simp add: get_user_def fake_users_db_def)

theorem get_user_lookup_witness:
  "get_user ex_mk ''bob'' = None \<and> get_user ex_mk ''alice'' \<noteq> None
   \<and> get_user ex_mk ''alice'' =
       Some [(''username'', PStr ''alice''),
             (''hashed_password'',
              PStr ''$2b$12$KIXQ1j1F8pYQxvFJH3hE5O6ZLZK9Gz7Hh9c6mV1XyN0k7P6f4nJqS''),
             (''disabled'', PBool False)]"
  using get_user_lookup [of "''bob''" ex_mk] get_user_lookup [of "''alice''" ex_mk]
  by (simp add: ex_mk_def)

subsection \<open>Placing the file\<close>










subsection \<open>What a successful \<open>os.rename\<close> has done\<close>

lemma rename_ok:
  assumes "os_rename w src dst = Inr w3"
  shows "\<exists>sp a ss dp b ds n.
           locate w src = Inr (sp, LastNorm a, ss) \<and> locate w dst = Inr (dp, LastNorm b, ds)
         \<and> lookup (fs w) (sp @ [a]) = Some n
         \<and> (\<not> is_Dir n \<longrightarrow> \<not> ss \<and> \<not> ds)
         \<and> \<not> strict_prefix (sp @ [a]) (dp @ [b])
         \<and> \<not> strict_prefix (dp @ [b]) (sp @ [a])
         \<and> (if sp @ [a] = dp @ [b] then w3 = w
             else w3 = move w (sp @ [a]) (dp @ [b]) n
                  \<and> (\<not> is_Dir n \<longrightarrow> stat (fs w) (dp @ [b]) \<noteq> Some KDir))"
proof -
  from assms obtain sp sl ss where ls: "locate w src = Inr (sp, sl, ss)"
    by (cases "locate w src") (auto simp: os_rename_def)
  from assms ls obtain dp dl ds where ld: "locate w dst = Inr (dp, dl, ds)"
    by (cases "locate w dst") (auto simp: os_rename_def)
  from assms ls ld obtain a where sl: "sl = LastNorm a"
    by (cases sl) (auto simp: os_rename_def)
  from assms ls ld sl obtain b where dl: "dl = LastNorm b"
    by (cases dl) (auto simp: os_rename_def)
  from assms ls ld sl dl obtain n where n: "lookup (fs w) (sp @ [a]) = Some n"
    by (cases "lookup (fs w) (sp @ [a])") (auto simp: os_rename_def)
  let ?s = "sp @ [a]" and ?d = "dp @ [b]"
  let ?R = "case lookup (fs w) ?d of
             None \<Rightarrow> Inr (move w ?s ?d n)
           | Some (File y) \<Rightarrow>
               (if is_Dir n then Inl ENOTDIR else Inr (move w ?s ?d n))
           | Some (Dir es) \<Rightarrow>
               (if \<not> is_Dir n then Inl EISDIR
                else if es \<noteq> [] then Inl ENOTEMPTY
                else Inr (move w ?s ?d n))"
  have eq: "os_rename w src dst =
      (if \<not> is_Dir n \<and> (ss \<or> ds) then Inl ENOTDIR
       else if strict_prefix ?s ?d then Inl EINVAL
       else if strict_prefix ?d ?s then Inl ENOTEMPTY
       else if ?s = ?d then Inr w else ?R)"
    unfolding os_rename_def using ls ld sl dl n by simp
  have c1: "\<not> (\<not> is_Dir n \<and> (ss \<or> ds))"
  proof
    assume "\<not> is_Dir n \<and> (ss \<or> ds)"
    with eq have "os_rename w src dst = Inl ENOTDIR" by simp
    with assms show False by simp
  qed
  have c2: "\<not> strict_prefix ?s ?d"
  proof
    assume "strict_prefix ?s ?d"
    with eq c1 have "os_rename w src dst = Inl EINVAL" by simp
    with assms show False by simp
  qed
  have c3: "\<not> strict_prefix ?d ?s"
  proof
    assume "strict_prefix ?d ?s"
    with eq c1 c2 have "os_rename w src dst = Inl ENOTEMPTY" by simp
    with assms show False by simp
  qed
  have eq2: "os_rename w src dst = (if ?s = ?d then Inr w else ?R)"
    using eq c1 c2 c3 by simp
  have c4: "if ?s = ?d then w3 = w
             else w3 = move w ?s ?d n
                  \<and> (\<not> is_Dir n \<longrightarrow> stat (fs w) ?d \<noteq> Some KDir)"
  proof (cases "?s = ?d")
    case True
    have "os_rename w src dst = Inr w" by (subst eq2) (simp add: True)
    from this [symmetric] assms have "Inr w = (Inr w3 :: errno + world)" by (rule trans)
    then have "w3 = w" by simp
    then show ?thesis by (simp add: True)
  next
    case False
    have "os_rename w src dst = ?R" by (subst eq2) (simp only: False if_False)
    from this [symmetric] assms have r: "?R = Inr w3" by (rule trans)
    have "w3 = move w ?s ?d n \<and> (\<not> is_Dir n \<longrightarrow> stat (fs w) ?d \<noteq> Some KDir)"
    proof (cases "lookup (fs w) ?d")
      case None
      with r show ?thesis by (simp add: stat_def)
    next
      case (Some m)
      show ?thesis
      proof (cases m)
        case (File y)
        with r Some show ?thesis by (simp add: stat_def split: if_splits)
      next
        case (Dir es)
        with r Some show ?thesis by (simp add: stat_def split: if_splits)
      qed
    qed
    with False show ?thesis by auto
  qed
  have c1': "\<not> is_Dir n \<longrightarrow> \<not> ss \<and> \<not> ds" using c1 by blast
  show ?thesis
    apply (rule exI [of _ sp], rule exI [of _ a], rule exI [of _ ss])
    apply (rule exI [of _ dp], rule exI [of _ b], rule exI [of _ ds], rule exI [of _ n])
    using ls ld sl dl n c1' c2 c3 c4 apply simp
    done
qed

lemma basename_nonempty: "p \<noteq> [] \<Longrightarrow> last p \<noteq> CHR ''/'' \<Longrightarrow> path_basename p \<noteq> []"
  by (cases p rule: rev_cases) (auto simp: basename_snoc)

lemma walk_replicate: "stat t q = Some KDir \<Longrightarrow> walk t q (replicate k []) = Inr q"
  by (induction k) auto

lemma locate_resolve:
  assumes "locate w p = Inr (sp, LastNorm a, ss)" and "stat (fs w) (sp @ [a]) = Some k"
    and "ss \<longrightarrow> k = KDir"
  shows "resolve w p = Inr (sp @ [a])"
proof -
  let ?p' = "rstrip p"
  from assms(1) have ne: "p \<noteq> []" and ne': "?p' \<noteq> []"
    and wk: "walk (fs w) (start w p) (butlast (splitc ?p')) = Inr sp"
    and sd: "stat (fs w) sp = Some KDir"
    and lo: "last_of (last (splitc ?p')) = LastNorm a" and ss: "ss = (?p' \<noteq> p)"
    by (auto simp: locate_def split: if_splits sum.splits)
  from lo have la: "last (splitc ?p') = a" and a1: "a \<noteq> ''.''" and a2: "a \<noteq> ''..''"
    by (auto simp: last_of_def split: if_splits)
  have a0: "a \<noteq> []"
    using la last_splitc [of ?p'] basename_nonempty [OF ne' rstrip_last [OF ne']] by simp
  obtain k' where k': "p = ?p' @ replicate k' CHR ''/''" using rstrip_decomp by blast
  have sp: "splitc p = (butlast (splitc ?p') @ [a]) @ replicate k' []"
  proof -
    have "splitc p = splitc (?p' @ replicate k' CHR ''/'')" using k' by simp
    also have "\<dots> = splitc ?p' @ replicate k' []" by (rule splitc_replicate)
    also have "splitc ?p' = butlast (splitc ?p') @ [a]"
      using la append_butlast_last_id [OF splitc_ne, of ?p'] by simp
    finally show ?thesis .
  qed
  have w1: "walk (fs w) (start w p) (butlast (splitc ?p') @ [a]) = Inr (sp @ [a])"
    using wk sd a0 a1 a2 by (simp add: walk_append)
  have w2: "walk (fs w) (sp @ [a]) (replicate k' []) = Inr (sp @ [a])"
  proof (cases "k' = 0")
    case True
    then show ?thesis by simp
  next
    case False
    have "?p' \<noteq> p"
    proof
      assume e: "?p' = p"
      from k' have "length p = length ?p' + k'" by (metis length_append length_replicate)
      with e False show False by simp
    qed
    with ss assms(3) have "k = KDir" by simp
    with assms(2) show ?thesis by (simp add: walk_replicate)
  qed
  have "walk (fs w) (start w p) (splitc p) =
        (case walk (fs w) (start w p) (butlast (splitc ?p') @ [a]) of
           Inl e \<Rightarrow> Inl e | Inr q \<Rightarrow> walk (fs w) q (replicate k' []))"
    unfolding sp by (rule walk_append)
  also have "\<dots> = walk (fs w) (sp @ [a]) (replicate k' [])"
    by (simp only: w1 sum.case)
  also note w2
  finally have "walk (fs w) (start w p) (splitc p) = Inr (sp @ [a])" .
  with ne assms(2) show ?thesis by (simp add: resolve_def)
qed

lemma rename_needs_source:
  assumes "os_rename w src dst = Inr w3"
  shows "path_exists w src"
proof -
  from rename_ok [OF assms] obtain sp a ss n where
    l: "locate w src = Inr (sp, LastNorm a, ss)" and n: "lookup (fs w) (sp @ [a]) = Some n"
    and d: "\<not> is_Dir n \<longrightarrow> \<not> ss" by blast
  have k: "stat (fs w) (sp @ [a]) = Some (kind_of n)" using n by (simp add: stat_def)
  have "ss \<longrightarrow> kind_of n = KDir" using d by (cases n) auto
  from locate_resolve [OF l k this] show ?thesis by (simp add: path_exists_def)
qed

subsection \<open>Move, not copy\<close>



lemma download_ok_unfold:
  assumes "download_data dest (Some f) w = (Inr r, w3, ev)" and "f w = (Inr p, w1)"
  shows "dest \<noteq> [] \<and> r = path_join dest (path_basename p)
       \<and> (\<exists>w2. os_makedirs w1 dest = (None, w2)
              \<and> os_rename w2 p (path_join dest (path_basename p)) = Inr w3)"
  using assms
  by (auto simp: download_data_def Let_def split: if_splits prod.splits sum.splits option.splits)





subsection \<open>Failures of the download function\<close>




lemma locate_norm:
  assumes "locate w p = Inr (sp, LastNorm a, ss)"
  shows "a \<noteq> [] \<and> a \<noteq> ''.'' \<and> a \<noteq> ''..'' \<and> a = path_basename (rstrip p)
       \<and> ss = (rstrip p \<noteq> p) \<and> stat (fs w) sp = Some KDir"
proof -
  let ?p' = "rstrip p"
  from assms have ne': "?p' \<noteq> []"
    and sd: "stat (fs w) sp = Some KDir"
    and lo: "last_of (last (splitc ?p')) = LastNorm a" and ss: "ss = (?p' \<noteq> p)"
    by (auto simp: locate_def split: if_splits sum.splits)
  from lo have la: "last (splitc ?p') = a" and a1: "a \<noteq> ''.''" and a2: "a \<noteq> ''..''"
    by (auto simp: last_of_def split: if_splits)
  have "a = path_basename ?p'" using la last_splitc [of ?p'] by simp
  moreover have "path_basename ?p' \<noteq> []"
    using basename_nonempty [OF ne' rstrip_last [OF ne']] .
  ultimately show ?thesis using a1 a2 ss sd by simp
qed






subsection \<open>The environment\<close>

lemma makedirs_env:
  "os_makedirs (w\<lparr>environ := e\<rparr>) p =
     (case os_makedirs w p of (r, w2) \<Rightarrow> (r, w2\<lparr>environ := e\<rparr>))"
  by (simp add: os_makedirs_def start_def split: prod.splits)

lemma locate_env: "locate (w\<lparr>environ := e\<rparr>) p = locate w p"
  by (simp add: locate_def start_def split: sum.splits)

lemma move_env: "move (w\<lparr>environ := e\<rparr>) s d n = (move w s d n)\<lparr>environ := e\<rparr>"
  by (simp add: move_def)

lemma rename_env:
  "os_rename (w\<lparr>environ := e\<rparr>) src dst =
     (case os_rename w src dst of Inl x \<Rightarrow> Inl x | Inr w3 \<Rightarrow> Inr (w3\<lparr>environ := e\<rparr>))"
proof -
  have f: "fs (w\<lparr>environ := e\<rparr>) = fs w" by simp
  show ?thesis
    unfolding os_rename_def locate_env move_env f
    by (auto split: sum.splits prod.splits last_comp.splits option.splits node.splits)
qed

lemma world_env_eq:
  fixes w w' :: world
  assumes "fs w' = fs w" and "cwd w' = cwd w"
  shows "w' = w\<lparr>environ := environ w'\<rparr>"
  using assms by simp


lemma makedirs_environ: "os_makedirs w p = (r, w2) \<Longrightarrow> environ w2 = environ w"
  by (auto simp: os_makedirs_def split: if_splits prod.splits)

lemma rename_environ:
  assumes "os_rename w src dst = Inr w3"
  shows "environ w3 = environ w"
proof -
  from rename_ok [OF assms] obtain s d n where "w3 = w \<or> w3 = move w s d n"
    by (metis (full_types))
  then show ?thesis by (auto simp: move_def)
qed

lemma download_environ:
  assumes "raw \<noteq> []" and "f w = (r, w1)"
  shows "environ (fst (snd (download_data raw (Some f) w))) = environ w1"
proof (cases r)
  case (Inl x)
  with assms show ?thesis by (simp add: download_data_def)
next
  case (Inr p)
  obtain r2 w2 where mk: "os_makedirs w1 raw = (r2, w2)" by (cases "os_makedirs w1 raw") auto
  have e2: "environ w2 = environ w1" using mk by (rule makedirs_environ)
  show ?thesis
  proof (cases r2)
    case (Some e)
    with assms Inr mk e2 show ?thesis by (simp add: download_data_def)
  next
    case None
    show ?thesis
    proof (cases "os_rename w2 p (path_join raw (path_basename p))")
      case (Inl e)
      with assms Inr mk None e2 show ?thesis by (simp add: download_data_def Let_def)
    next
      case (Inr w3)
      from rename_environ [OF this] have "environ w3 = environ w2" .
      with assms \<open>r = Inr p\<close> mk None e2 Inr show ?thesis
        by (simp add: download_data_def Let_def)
    qed
  qed
qed

text \<open>
  C8. \<open>download_data\<close> neither reads nor writes the environment. Run it twice on the same
  arguments and the same file system and working directory, under two different
  environments: if the download function itself returns the same result and leaves the same
  file system in both runs, then both runs of \<open>download_data\<close> give the same result, make
  the same calls and leave the same file system and working directory; the environment of
  the final world is the one the download function left (or the initial one when
  validation fails). Only \<open>main\<close> looks up \<open>RAW_DATA_PATH\<close>.
\<close>

theorem download_data_ignores_environment:
  assumes "download_func w = (r, w1)"
    and "download_func (w\<lparr>environ := env'\<rparr>) = (r, w1\<lparr>environ := env1'\<rparr>)"
  shows "download_data raw_data_path None (w\<lparr>environ := env'\<rparr>) =
           (case download_data raw_data_path None w of
              (res, wend, ev) \<Rightarrow> (res, wend\<lparr>environ := env'\<rparr>, ev))
       \<and> download_data raw_data_path (Some download_func) (w\<lparr>environ := env'\<rparr>) =
           (case download_data raw_data_path (Some download_func) w of
              (res, wend, ev) \<Rightarrow>
                (res, wend\<lparr>environ := (if raw_data_path = [] then env' else env1')\<rparr>, ev))
       \<and> (raw_data_path \<noteq> [] \<longrightarrow>
            environ (fst (snd (download_data raw_data_path (Some download_func) w))) = environ w1)"
proof (intro conjI impI)
  show "download_data raw_data_path None (w\<lparr>environ := env'\<rparr>) =
           (case download_data raw_data_path None w of
              (res, wend, ev) \<Rightarrow> (res, wend\<lparr>environ := env'\<rparr>, ev))"
    by (simp add: download_data_def)
next
  show "download_data raw_data_path (Some download_func) (w\<lparr>environ := env'\<rparr>) =
           (case download_data raw_data_path (Some download_func) w of
              (res, wend, ev) \<Rightarrow>
                (res, wend\<lparr>environ := (if raw_data_path = [] then env' else env1')\<rparr>, ev))"
  proof (cases "raw_data_path = []")
    case True
    then show ?thesis by (simp add: download_data_def)
  next
    case False
    show ?thesis
    proof (cases r)
      case (Inl x)
      with False assms show ?thesis by (simp add: download_data_def)
    next
      case (Inr p)
      with False assms show ?thesis
        by (simp add: download_data_def Let_def makedirs_env rename_env
            split: prod.splits option.splits sum.splits)
    qed
  qed
next
  assume "raw_data_path \<noteq> []"
  then show "environ (fst (snd (download_data raw_data_path (Some download_func) w))) = environ w1"
    using assms(1) by (rule download_environ)
qed

theorem download_data_ignores_environment_witness:
  "download_data ''/tmp/raw_data'' (Some (ex_retrieve ''/tmp/src/accidents.zip''))
       (ex_world\<lparr>environ := [(''RAW_DATA_PATH'', ''elsewhere'')]\<rparr>) =
     (Inr ''/tmp/raw_data/accidents.zip'',
      ex_world_moved\<lparr>environ := [(''RAW_DATA_PATH'', ''elsewhere'')]\<rparr>,
      ok_events ''/tmp/raw_data'' ''/tmp/src/accidents.zip'')
   \<and> environ ex_world_moved = environ ex_world"
proof -
  have h1: "ex_retrieve ''/tmp/src/accidents.zip'' ex_world = (Inr ''/tmp/src/accidents.zip'', ex_world)"
    by (simp add: ex_retrieve_def)
  have h2: "ex_retrieve ''/tmp/src/accidents.zip'' (ex_world\<lparr>environ := [(''RAW_DATA_PATH'', ''elsewhere'')]\<rparr>)
         = (Inr ''/tmp/src/accidents.zip'', ex_world\<lparr>environ := [(''RAW_DATA_PATH'', ''elsewhere'')]\<rparr>)"
    by (simp add: ex_retrieve_def)
  have d: "download_data ''/tmp/raw_data'' (Some (ex_retrieve ''/tmp/src/accidents.zip'')) ex_world =
      (Inr ''/tmp/raw_data/accidents.zip'', ex_world_moved,
       ok_events ''/tmp/raw_data'' ''/tmp/src/accidents.zip'')"
    by code_simp
  note t = download_data_ignores_environment [OF h1 h2, of "''/tmp/raw_data''"]
  have a: "download_data ''/tmp/raw_data'' (Some (ex_retrieve ''/tmp/src/accidents.zip''))
       (ex_world\<lparr>environ := [(''RAW_DATA_PATH'', ''elsewhere'')]\<rparr>) =
     (Inr ''/tmp/raw_data/accidents.zip'',
      ex_world_moved\<lparr>environ := [(''RAW_DATA_PATH'', ''elsewhere'')]\<rparr>,
      ok_events ''/tmp/raw_data'' ''/tmp/src/accidents.zip'')"
    using t [THEN conjunct2, THEN conjunct1] by (simp add: d)
  have b: "environ ex_world_moved = environ ex_world"
    using t [THEN conjunct2, THEN conjunct2] by (simp add: d)
  from a b show ?thesis by (rule conjI)
qed

text \<open>
  \<open>main\<close>, on the other hand, depends on the environment: with \<open>RAW_DATA_PATH\<close> set to
  \<open>custom/data/path\<close> the file ends under \<open>/tmp/custom/data/path\<close>, with the variable unset
  under \<open>/tmp/data/raw\<close>.
\<close>

lemma main_reads_RAW_DATA_PATH:
  "fst (snd (main ''/tmp'' (ex_retrieve ''/tmp/src/accidents.zip'') ex_world)) =
     ex_world\<lparr>fs := Dir [(''tmp'', Dir [(''src'', Dir [(''my_data.tar.gz'', File ''payload'')]),
                               (''blocker'', File ''not a directory''),
                               (''raw'', Dir [(''accidents.zip'', File ''stale'')]),
                               (''custom'', Dir [(''data'', Dir [(''path'',
                                  Dir [(''accidents.zip'', File ''test data'')])])])])]\<rparr>
   \<and> fst (snd (main ''/tmp'' (ex_retrieve ''/tmp/src/accidents.zip'') (ex_world\<lparr>environ := []\<rparr>))) =
     ex_world\<lparr>fs := Dir [(''tmp'', Dir [(''src'', Dir [(''my_data.tar.gz'', File ''payload'')]),
                               (''blocker'', File ''not a directory''),
                               (''raw'', Dir [(''accidents.zip'', File ''stale'')]),
                               (''data'', Dir [(''raw'',
                                  Dir [(''accidents.zip'', File ''test data'')])])])],
                 environ := []\<rparr>"
  by code_simp

subsection \<open>All or nothing\<close>

lemma download_ok_cases:
  assumes "download_data dest fo w = (Inr r, w3, ev)"
  shows "\<exists>f p w1 w2. fo = Some f \<and> f w = (Inr p, w1) \<and> dest \<noteq> []
       \<and> r = path_join dest (path_basename p)
       \<and> os_makedirs w1 dest = (None, w2)
       \<and> os_rename w2 p (path_join dest (path_basename p)) = Inr w3"
proof -
  from assms have ne: "dest \<noteq> []" by (auto simp: download_data_def split: if_splits)
  with assms obtain f where fo: "fo = Some f"
    by (cases fo) (auto simp: download_data_def)
  obtain x w1 where fw: "f w = (x, w1)" by (cases "f w") auto
  with assms ne fo obtain p where x: "x = Inr p"
    by (cases x) (auto simp: download_data_def)
  from download_ok_unfold [OF assms [unfolded fo] fw [unfolded x]] fo fw x ne
  show ?thesis by blast
qed

lemma move_lookup_target:
  assumes "stat t dp = Some KDir" and "\<not> strict_prefix s (dp @ [b])" and "s \<noteq> dp @ [b]"
    and "s \<noteq> []"
  shows "lookup (put (dp @ [b]) n (del s t)) (dp @ [b]) = Some n"
proof -
  have "\<not> prefix s dp"
  proof
    assume "prefix s dp"
    then have "prefix s (dp @ [b])" by (simp add: prefix_def) (metis append_assoc)
    with assms(2,3) show False by (simp add: strict_prefix_def)
  qed
  then have "stat (del s t) dp = Some KDir" using assms(1,4) by (simp add: stat_del)
  then have "stat (del s t) (butlast (dp @ [b])) = Some KDir" by simp
  then show ?thesis by (rule lookup_put_same)
qed


lemma download_moves_entry:
  assumes mk: "os_makedirs w1 dest = (None, w2)"
    and rn: "os_rename w2 p (path_join dest (path_basename p)) = Inr w3"
  shows "\<exists>s d n. entry w2 p = Some s \<and> entry w2 (path_join dest (path_basename p)) = Some d
       \<and> lookup (fs w2) s = Some n \<and> lookup (fs w3) d = Some n
       \<and> (\<forall>c. n = File c \<longrightarrow> read_file w3 (path_join dest (path_basename p)) = Some c)"
proof -
  let ?r = "path_join dest (path_basename p)"
  from rename_ok [OF rn] obtain sp a ss dp b ds n where
    ls: "locate w2 p = Inr (sp, LastNorm a, ss)" and ld: "locate w2 ?r = Inr (dp, LastNorm b, ds)"
    and n: "lookup (fs w2) (sp @ [a]) = Some n"
    and sl: "\<not> is_Dir n \<longrightarrow> \<not> ss \<and> \<not> ds"
    and np: "\<not> strict_prefix (sp @ [a]) (dp @ [b])"
    and c: "if sp @ [a] = dp @ [b] then w3 = w2
            else w3 = move w2 (sp @ [a]) (dp @ [b]) n
                 \<and> (\<not> is_Dir n \<longrightarrow> stat (fs w2) (dp @ [b]) \<noteq> Some KDir)"
    by blast
  have es: "entry w2 p = Some (sp @ [a])" using ls by (simp add: entry_def)
  have ed: "entry w2 ?r = Some (dp @ [b])" using ld by (simp add: entry_def)
  from locate_norm [OF ld] have dpd: "stat (fs w2) dp = Some KDir" by simp
  have l3: "lookup (fs w3) (dp @ [b]) = Some n"
  proof (cases "sp @ [a] = dp @ [b]")
    case True
    with c n show ?thesis by simp
  next
    case False
    with c have "fs w3 = put (dp @ [b]) n (del (sp @ [a]) (fs w2))" by (simp add: move_def)
    with move_lookup_target [OF dpd np False] show ?thesis by simp
  qed
  have fl: "read_file w3 ?r = Some x" if nf: "n = File x" for x
  proof -
    from sl nf have ss: "ss = False" and ds: "ds = False" by simp_all
    from locate_norm [OF ls] ss have ab: "a = path_basename p" by simp
    have k2: "stat (fs w2) (sp @ [a]) = Some (KFile x)" using n nf by (simp add: stat_def)
    have s2: "resolve w2 p = Inr (sp @ [a])"
      using locate_resolve [OF ls k2] ss by simp
    from makedirs_ok [OF mk] obtain dd where ne: "dest \<noteq> []"
      and wk: "walk (fs w2) (start w2 dest) (splitc dest) = Inr dd"
      and dk: "stat (fs w2) dd = Some KDir" by blast
    from resolve_file [OF s2 k2] have b0: "path_basename p \<noteq> []"
      "path_basename p \<noteq> ''.''" "path_basename p \<noteq> ''..''" by auto
    have "locate w2 ?r = Inr (dd, LastNorm (path_basename p), False)"
      using locate_join [OF wk dk ne basename_noslash b0(1)] b0 by (simp add: last_of_def)
    with ld have dd: "dp = dd" and bb: "b = path_basename p" by simp_all
    have nt: "stat (fs w2) (dd @ [path_basename p]) \<noteq> Some KDir"
    proof (cases "sp @ [a] = dp @ [b]")
      case True
      with k2 dd bb show ?thesis by simp
    next
      case False
      with c nf dd bb show ?thesis by (auto split: if_splits)
    qed
    from rename_file_world [OF s2 k2 wk dk ne nt] obtain w3' where
      "os_rename w2 p ?r = Inr w3'" and "read_file w3' ?r = Some x" by blast
    with rn show ?thesis by simp
  qed
  from es ed n l3 fl show ?thesis by blast
qed

lemma download_error_keeps_files:
  assumes "download_data dest (Some f) w = (Inl e, w', ev)" and "dest \<noteq> []" and "f w = (x, w1)"
  shows "cwd w' = cwd w1 \<and> environ w' = environ w1 \<and> grows (fs w1) (fs w')"
proof (cases x)
  case (Inl y)
  with assms show ?thesis by (simp add: download_data_def grows_refl)
next
  case (Inr p)
  obtain r2 w2 where mk: "os_makedirs w1 dest = (r2, w2)" by (cases "os_makedirs w1 dest") auto
  from makedirs_result [of w1 dest r2 w2] mk obtain t where
    w2: "w2 = w1\<lparr>fs := t\<rparr>" and g: "grows (fs w1) t" by blast
  have "w' = w2"
  proof (cases r2)
    case (Some e2)
    with assms Inr mk show ?thesis by (simp add: download_data_def)
  next
    case None
    with assms Inr mk show ?thesis
      by (cases "os_rename w2 p (path_join dest (path_basename p))")
         (simp_all add: download_data_def Let_def)
  qed
  with w2 g show ?thesis by simp
qed


text \<open>
  C4 (amended). Every call ends in one of two ways. Either a path is returned: then the
  entry that the downloaded path named at the time of the move is stored at the entry that
  the returned path named at that time, and when it is a regular file the returned path
  exists afterwards and holds its content. Or an error is raised: then nothing was moved,
  created or removed apart from directories made by \<open>os.makedirs\<close>. If validation failed
  the world is untouched; otherwise every location has the kind and content the download
  function left it with, or was missing and is a directory now.
\<close>

theorem download_data_all_or_nothing:
  assumes "download_data raw_data_path download_func w = (res, w', ev)"
  shows "(\<forall>r. res = Inr r \<longrightarrow>
            (\<exists>f p w1 w2 s d n. download_func = Some f \<and> f w = (Inr p, w1)
               \<and> os_makedirs w1 raw_data_path = (None, w2)
               \<and> r = path_join raw_data_path (path_basename p)
               \<and> entry w2 p = Some s \<and> entry w2 r = Some d
               \<and> lookup (fs w2) s = Some n \<and> lookup (fs w') d = Some n
               \<and> (\<forall>c. n = File c \<longrightarrow> read_file w' r = Some c)))
       \<and> (\<forall>e. res = Inl e \<longrightarrow>
            (raw_data_path = [] \<or> download_func = None \<longrightarrow> w' = w \<and> ev = [])
            \<and> (\<forall>f x w1. raw_data_path \<noteq> [] \<and> download_func = Some f \<and> f w = (x, w1) \<longrightarrow>
                  cwd w' = cwd w1 \<and> environ w' = environ w1 \<and> grows (fs w1) (fs w')))"
proof -
  have A: "\<exists>f p w1 w2 s d n. download_func = Some f \<and> f w = (Inr p, w1)
               \<and> os_makedirs w1 raw_data_path = (None, w2)
               \<and> r = path_join raw_data_path (path_basename p)
               \<and> entry w2 p = Some s \<and> entry w2 r = Some d
               \<and> lookup (fs w2) s = Some n \<and> lookup (fs w') d = Some n
               \<and> (\<forall>c. n = File c \<longrightarrow> read_file w' r = Some c)" if "res = Inr r" for r
  proof -
    from that assms have d: "download_data raw_data_path download_func w = (Inr r, w', ev)"
      by simp
    from download_ok_cases [OF d] obtain f p w1 w2 where
      fo: "download_func = Some f" and fw: "f w = (Inr p, w1)"
      and r: "r = path_join raw_data_path (path_basename p)"
      and mk: "os_makedirs w1 raw_data_path = (None, w2)"
      and rn: "os_rename w2 p (path_join raw_data_path (path_basename p)) = Inr w'" by blast
    from download_moves_entry [OF mk rn] obtain s d n where
      m: "entry w2 p = Some s \<and> entry w2 (path_join raw_data_path (path_basename p)) = Some d
       \<and> lookup (fs w2) s = Some n \<and> lookup (fs w') d = Some n
       \<and> (\<forall>c. n = File c \<longrightarrow> read_file w' (path_join raw_data_path (path_basename p)) = Some c)"
      by (elim exE) (rule that)
    have "download_func = Some f \<and> f w = (Inr p, w1)
               \<and> os_makedirs w1 raw_data_path = (None, w2)
               \<and> r = path_join raw_data_path (path_basename p)
               \<and> entry w2 p = Some s \<and> entry w2 r = Some d
               \<and> lookup (fs w2) s = Some n \<and> lookup (fs w') d = Some n
               \<and> (\<forall>c. n = File c \<longrightarrow> read_file w' r = Some c)"
      using fo fw mk m unfolding r by (intro conjI) simp_all
    then show ?thesis by (intro exI)
  qed
  have B: "w' = w \<and> ev = []" if "res = Inl e" and "raw_data_path = [] \<or> download_func = None" for e
    using that assms by (auto simp: download_data_def split: if_splits)
  have C: "cwd w' = cwd w1 \<and> environ w' = environ w1 \<and> grows (fs w1) (fs w')"
    if e: "res = Inl e" and a: "raw_data_path \<noteq> [] \<and> download_func = Some f \<and> f w = (x, w1)"
    for e f x w1
  proof -
    from assms e a have d: "download_data raw_data_path (Some f) w = (Inl e, w', ev)" by simp
    from a have ne: "raw_data_path \<noteq> []" and fw: "f w = (x, w1)" by simp_all
    from download_error_keeps_files [OF d ne fw] show ?thesis .
  qed
  show ?thesis
  proof (rule conjI)
    show "\<forall>r. res = Inr r \<longrightarrow>
            (\<exists>f p w1 w2 s d n. download_func = Some f \<and> f w = (Inr p, w1)
               \<and> os_makedirs w1 raw_data_path = (None, w2)
               \<and> r = path_join raw_data_path (path_basename p)
               \<and> entry w2 p = Some s \<and> entry w2 r = Some d
               \<and> lookup (fs w2) s = Some n \<and> lookup (fs w') d = Some n
               \<and> (\<forall>c. n = File c \<longrightarrow> read_file w' r = Some c))"
      by (intro allI impI) (rule A)
    show "\<forall>e. res = Inl e \<longrightarrow>
            (raw_data_path = [] \<or> download_func = None \<longrightarrow> w' = w \<and> ev = [])
            \<and> (\<forall>f x w1. raw_data_path \<noteq> [] \<and> download_func = Some f \<and> f w = (x, w1) \<longrightarrow>
                  cwd w' = cwd w1 \<and> environ w' = environ w1 \<and> grows (fs w1) (fs w'))"
    proof (intro allI impI conjI)
      fix e assume e: "res = Inl e"
      {
        assume v: "raw_data_path = [] \<or> download_func = None"
        from B [OF e v] show "w' = w" by simp
        from B [OF e v] show "ev = []" by simp
      }
      fix f x w1
      assume a: "raw_data_path \<noteq> [] \<and> download_func = Some f \<and> f w = (x, w1)"
      from C [OF e a] show "cwd w' = cwd w1" by simp
      from C [OF e a] show "environ w' = environ w1" by simp
      from C [OF e a] show "grows (fs w1) (fs w')" by simp
    qed
  qed
qed

theorem download_data_all_or_nothing_witness:
  "read_file ex_world_moved ''/tmp/raw_data/accidents.zip'' = Some ''test data''"
proof -
  have d: "download_data ''/tmp/raw_data'' (Some (ex_retrieve ''/tmp/src/accidents.zip'')) ex_world =
      (Inr ''/tmp/raw_data/accidents.zip'', ex_world_moved,
       ok_events ''/tmp/raw_data'' ''/tmp/src/accidents.zip'')"
    by code_simp
  note t = download_data_all_or_nothing [OF d, THEN conjunct1, rule_format, OF refl]
  from t obtain f p w1 w2 s d' n where
    m: "Some (ex_retrieve ''/tmp/src/accidents.zip'') = Some f \<and> f ex_world = (Inr p, w1)
      \<and> os_makedirs w1 ''/tmp/raw_data'' = (None, w2)
      \<and> ''/tmp/raw_data/accidents.zip'' = path_join ''/tmp/raw_data'' (path_basename p)
      \<and> entry w2 p = Some s \<and> entry w2 ''/tmp/raw_data/accidents.zip'' = Some d'
      \<and> lookup (fs w2) s = Some n \<and> lookup (fs ex_world_moved) d' = Some n
      \<and> (\<forall>c. n = File c \<longrightarrow> read_file ex_world_moved ''/tmp/raw_data/accidents.zip'' = Some c)"
    by (elim exE) (rule that)
  from m have f: "Some (ex_retrieve ''/tmp/src/accidents.zip'') = Some f"
    and fw: "f ex_world = (Inr p, w1)"
    and mk: "os_makedirs w1 ''/tmp/raw_data'' = (None, w2)"
    and es: "entry w2 p = Some s" and n: "lookup (fs w2) s = Some n"
    and rd: "\<forall>c. n = File c \<longrightarrow> read_file ex_world_moved ''/tmp/raw_data/accidents.zip'' = Some c"
    by blast+
  from f fw have p: "p = ''/tmp/src/accidents.zip''" and w1: "w1 = ex_world"
    by (auto simp: ex_retrieve_def)
  have "os_makedirs ex_world ''/tmp/raw_data'' = (None, ex_world_dir)" by code_simp
  with mk w1 have w2: "w2 = ex_world_dir" by simp
  have "entry ex_world_dir ''/tmp/src/accidents.zip'' = Some [''tmp'', ''src'', ''accidents.zip'']"
    by code_simp
  with es p w2 have s: "s = [''tmp'', ''src'', ''accidents.zip'']" by simp
  have "lookup (fs ex_world_dir) [''tmp'', ''src'', ''accidents.zip''] = Some (File ''test data'')"
    by code_simp
  with n s w2 have "n = File ''test data''" by simp
  with rd show ?thesis by blast
qed

text \<open>
  A returned path need not exist: the download function returns the directory \<open>/tmp/src\<close>
  and the destination is \<open>/tmp/src/../b\<close>. The directory is moved to \<open>/tmp/b/src\<close>, and the
  returned string \<open>/tmp/src/../b/src\<close> no longer resolves, because \<open>/tmp/src\<close> is gone.
\<close>

theorem download_data_returned_path_gone_counterexample:
  "download_data ''/tmp/src/../b'' (Some (ex_retrieve ''/tmp/src'')) ex_world =
     (Inr ''/tmp/src/../b/src'', ex_world_dirmoved, ok_events ''/tmp/src/../b'' ''/tmp/src'')
   \<and> \<not> path_exists ex_world_dirmoved ''/tmp/src/../b/src''"
  by code_simp

subsection \<open>Creating the destination\<close>









lemma join_all_take0: "join_all base (take 0 cs) = base"
  by (simp add: join_all_def)








end
